theory Spec2Isabelle
  imports Main "HOL-Library.Multiset"
begin

section \<open>Data model of the reservation resolver\<close>

text \<open>
  A \<open>datetime.date\<close> is modelled by its proleptic Gregorian ordinal
  (\<open>date.toordinal()\<close>): comparison of dates is comparison of ordinals, and adding
  \<open>timedelta(days=1)\<close> adds one. 2024-01-01 has ordinal 738886.
\<close>

type_synonym date = int

text \<open>
  \<open>Reservation = NamedTuple("Reservation", [("start", date), ("end", date), ("name", str)])\<close>.
  The field \<open>end\<close> is written \<open>end_date\<close>, \<open>end\<close> being reserved. Equality of
  named tuples is equality of all three fields, as for the datatype.
\<close>

datatype reservation = Reservation (start: date) (end_date: date) (name: string)

definition ROOMS :: int where
  "ROOMS = 2"

text \<open>
  The exceptions the program can raise, by the place that raises them:
  \<open>min()\<close> and \<open>max()\<close> of an empty sequence (ValueError),
  \<open>list.remove(x)\<close> of an absent element (ValueError),
  \<open>choice\<close> of an empty sequence (IndexError), and the explicit
  \<open>raise ValueError(f"Reservation {reservation} goes <0 at date {day}")\<close>.
\<close>

datatype error =
    ValueError_min_empty
  | ValueError_max_empty
  | ValueError_remove_absent
  | IndexError_choice_empty
  | ValueError_goes_below_zero reservation date

section \<open>Calendar range\<close>

text \<open>
  \<open>date_range(start, end, step=timedelta(days=1))\<close> is only ever called with the
  default step. The generator has no effect of its own, so it is modelled by the list of the
  dates it yields, in order.
\<close>

definition step :: int where
  "step = 1"

function date_range :: "date \<Rightarrow> date \<Rightarrow> date list" where
  "date_range current end' =
     (if current < end' then current # date_range (current + step) end' else [])"
  by pat_completeness auto
termination
  by (relation "measure (\<lambda>(current, end'). nat (end' - current))") (auto simp: step_def)

declare date_range.simps [simp del]

section \<open>Availability tracker\<close>

text \<open>
  The tracker is a \<open>collections.Counter\<close>: a dictionary from dates to integers whose
  subscript read \<open>availability[date]\<close> returns 0 for a missing key, without storing it.
\<close>

type_synonym counter = "date \<rightharpoonup> int"

definition counter_get :: "counter \<Rightarrow> date \<Rightarrow> int" where
  "counter_get availability date = (case availability date of None \<Rightarrow> 0 | Some v \<Rightarrow> v)"

text \<open>The builtins \<open>min\<close> and \<open>max\<close> over a sequence; both raise on an empty one.\<close>

fun py_min :: "date list \<Rightarrow> error + date" where
  "py_min [] = Inl ValueError_min_empty"
| "py_min (x # xs) = Inr (fold min xs x)"

fun py_max :: "date list \<Rightarrow> error + date" where
  "py_max [] = Inl ValueError_max_empty"
| "py_max (x # xs) = Inr (fold max xs x)"

text \<open>
  \<open>create_availability\<close>: \<open>min_date\<close>, then \<open>max_date\<close>, then a fresh counter in which
  the loop stores \<open>ROOMS\<close> for every date of \<open>date_range(min_date, max_date)\<close>.
\<close>

definition create_availability :: "reservation list \<Rightarrow> error + counter" where
  "create_availability reservations =
     (case py_min (map start reservations) of
        Inl e \<Rightarrow> Inl e
      | Inr min_date \<Rightarrow>
          (case py_max (map end_date reservations) of
             Inl e \<Rightarrow> Inl e
           | Inr max_date \<Rightarrow>
               Inr (fold (\<lambda>date availability. availability(date \<mapsto> ROOMS))
                      (date_range min_date max_date) Map.empty)))"

text \<open>
  \<open>update_availability\<close> mutates the counter in place, so a caller that catches the
  exception sees the counter as the loop left it: the error result carries that counter.
  \<open>update_days\<close> is the \<open>for day in date_range(...)\<close> loop over the remaining days.
\<close>

fun update_days :: "reservation \<Rightarrow> date list \<Rightarrow> counter \<Rightarrow> (error \<times> counter) + counter" where
  "update_days reservation [] availability = Inr availability"
| "update_days reservation (day # days) availability =
     (let availability' = availability(day \<mapsto> counter_get availability day - 1)
      in if counter_get availability' day < 0
         then Inl (ValueError_goes_below_zero reservation day, availability')
         else update_days reservation days availability')"

definition update_availability :: "reservation \<Rightarrow> counter \<Rightarrow> (error \<times> counter) + counter" where
  "update_availability reservation availability =
     update_days reservation (date_range (start reservation) (end_date reservation)) availability"

section \<open>Selection policy\<close>

text \<open>
  \<open>list.remove(x)\<close> deletes the first element equal to \<open>x\<close> and raises ValueError when
  there is none.
\<close>

definition list_remove :: "'a \<Rightarrow> 'a list \<Rightarrow> error + 'a list" where
  "list_remove x xs = (if x \<in> set xs then Inr (remove1 x xs) else Inl ValueError_remove_absent)"

text \<open>
  \<open>random.SystemRandom().choice(seq)\<close> raises IndexError on an empty sequence and
  otherwise returns \<open>seq[i]\<close> for an index \<open>0 \<le> i < len(seq)\<close> obtained from the
  operating system's entropy. The entropy is a parameter \<open>r\<close> of the model, reduced into
  the range of indices; as \<open>r\<close> ranges over the naturals every index of the sequence is
  drawn, and no other.
\<close>

definition choice :: "nat \<Rightarrow> 'a list \<Rightarrow> error + 'a" where
  "choice r seq = (if seq = [] then Inl IndexError_choice_empty else Inr (seq ! (r mod length seq)))"

definition pick_reservation :: "nat \<Rightarrow> reservation list \<Rightarrow> error + (reservation \<times> reservation list)" where
  "pick_reservation r reservations =
     (case choice r reservations of
        Inl e \<Rightarrow> Inl e
      | Inr picked \<Rightarrow>
          (case list_remove picked reservations of
             Inl e \<Rightarrow> Inl e
           | Inr reservations' \<Rightarrow> Inr (picked, reservations')))"

section \<open>Conflict pruner\<close>

text \<open>
  The test of \<open>remove_conflicting\<close>:
  \<open>any(availability[date] == 0 for date in date_range(reservation.start, reservation.end))\<close>.
\<close>

definition conflicting :: "counter \<Rightarrow> reservation \<Rightarrow> bool" where
  "conflicting availability reservation =
     list_ex (\<lambda>date. counter_get availability date = 0)
       (date_range (start reservation) (end_date reservation))"

text \<open>
  The loop of \<open>remove_conflicting\<close> runs over the copy \<open>all_reservations\<close> while it
  removes from \<open>reservations\<close>. The second component of the result lists the reservations
  reported by the \<open>"Removing reservation %r"\<close> log records, in the order logged.
\<close>

fun remove_loop ::
  "reservation list \<Rightarrow> counter \<Rightarrow> reservation list \<times> reservation list
     \<Rightarrow> error + (reservation list \<times> reservation list)" where
  "remove_loop [] availability (reservations, removed) = Inr (reservations, removed)"
| "remove_loop (reservation # all_reservations) availability (reservations, removed) =
     (if conflicting availability reservation
      then (case list_remove reservation reservations of
              Inl e \<Rightarrow> Inl e
            | Inr reservations' \<Rightarrow>
                remove_loop all_reservations availability (reservations', removed @ [reservation]))
      else remove_loop all_reservations availability (reservations, removed))"

definition remove_conflicting ::
  "reservation list \<Rightarrow> counter \<Rightarrow> error + (reservation list \<times> reservation list)" where
  "remove_conflicting reservations availability =
     remove_loop reservations availability (reservations, [])"

section \<open>Resolver\<close>

text \<open>
  The variables of the main program: \<open>requests\<close>, \<open>availablility\<close> (spelt as in the
  source) and \<open>chosen\<close>; \<open>removed_log\<close> collects the reservations the pruner logged as
  removed, and \<open>draws\<close> counts the calls of \<open>choice\<close> made so far, which is the position
  reached in the entropy source \<open>rnd\<close>.
\<close>

record state =
  requests :: "reservation list"
  availablility :: counter
  chosen :: "reservation list"
  removed_log :: "reservation list"
  draws :: nat

text \<open>One pass through the body of \<open>while len(requests)\<close>.\<close>

definition loop_body :: "(nat \<Rightarrow> nat) \<Rightarrow> state \<Rightarrow> error + state" where
  "loop_body rnd s =
     (case pick_reservation (rnd (draws s)) (requests s) of
        Inl e \<Rightarrow> Inl e
      | Inr (picked, requests1) \<Rightarrow>
          (case update_availability picked (availablility s) of
             Inl (e, availability') \<Rightarrow> Inl e
           | Inr availability' \<Rightarrow>
               (case remove_conflicting requests1 availability' of
                  Inl e \<Rightarrow> Inl e
                | Inr (requests2, removed) \<Rightarrow>
                    Inr \<lparr>requests = requests2,
                         availablility = availability',
                         chosen = chosen s @ [picked],
                         removed_log = removed_log s @ removed,
                         draws = Suc (draws s)\<rparr>)))"

lemma length_list_remove:
  "list_remove x xs = Inr ys \<Longrightarrow> Suc (length ys) = length xs"
  by (auto simp: list_remove_def length_remove1 split: if_splits)
    (metis Suc_pred length_pos_if_in_set)

lemma length_pick_reservation:
  "pick_reservation r reservations = Inr (picked, reservations') \<Longrightarrow>
     Suc (length reservations') = length reservations"
  by (auto simp: pick_reservation_def split: sum.splits dest: length_list_remove)

lemma length_remove_loop:
  "remove_loop snapshot availability (reservations, removed) = Inr (reservations', removed') \<Longrightarrow>
     length reservations' \<le> length reservations"
proof (induction snapshot arbitrary: reservations removed)
  case Nil
  then show ?case by simp
next
  case (Cons r snapshot)
  show ?case
  proof (cases "conflicting availability r")
    case True
    with Cons.prems obtain rs1 where
      rm: "list_remove r reservations = Inr rs1" and
      rest: "remove_loop snapshot availability (rs1, removed @ [r]) = Inr (reservations', removed')"
      by (auto split: sum.splits)
    from Cons.IH [OF rest] length_list_remove [OF rm] show ?thesis by simp
  next
    case False
    with Cons.prems Cons.IH show ?thesis by simp
  qed
qed

lemma loop_body_shrinks:
  assumes "loop_body rnd s = Inr s'"
  shows "length (requests s') < length (requests s)"
proof -
  from assms obtain picked requests1 availability' requests2 removed where
    pick: "pick_reservation (rnd (draws s)) (requests s) = Inr (picked, requests1)" and
    prune: "remove_conflicting requests1 availability' = Inr (requests2, removed)" and
    s': "requests s' = requests2"
    by (auto simp: loop_body_def split: sum.splits prod.splits)
  from prune have "length requests2 \<le> length requests1"
    unfolding remove_conflicting_def by (rule length_remove_loop)
  with length_pick_reservation [OF pick] s' show ?thesis by simp
qed

text \<open>
  The loop \<open>while len(requests): ...\<close>. An exception raised in the body ends the program.
\<close>

function main_loop :: "(nat \<Rightarrow> nat) \<Rightarrow> state \<Rightarrow> error + state" where
  "main_loop rnd s =
     (if length (requests s) \<noteq> 0
      then (case loop_body rnd s of
              Inl e \<Rightarrow> Inl e
            | Inr s' \<Rightarrow> main_loop rnd s')
      else Inr s)"
  by pat_completeness auto
termination
  by (relation "measure (\<lambda>(rnd, s). length (requests s))") (auto dest: loop_body_shrinks)

declare main_loop.simps [simp del]

text \<open>
  The first \<open>n\<close> passes of the same loop (fewer when the loop ends before): the state the
  program is in after at most \<open>n\<close> iterations.
\<close>

fun loop_passes :: "nat \<Rightarrow> (nat \<Rightarrow> nat) \<Rightarrow> state \<Rightarrow> error + state" where
  "loop_passes 0 rnd s = Inr s"
| "loop_passes (Suc n) rnd s =
     (if length (requests s) \<noteq> 0
      then (case loop_body rnd s of
              Inl e \<Rightarrow> Inl e
            | Inr s' \<Rightarrow> loop_passes n rnd s')
      else Inr s)"

text \<open>
  The main program after \<open>read_reservations\<close>, whose result is the argument
  \<open>requests0\<close>, and before \<open>print_chosen\<close>.
\<close>

definition initial_state :: "reservation list \<Rightarrow> counter \<Rightarrow> state" where
  "initial_state requests0 availability =
     \<lparr>requests = requests0, availablility = availability, chosen = [],
      removed_log = [], draws = 0\<rparr>"

definition main :: "(nat \<Rightarrow> nat) \<Rightarrow> reservation list \<Rightarrow> error + state" where
  "main rnd requests0 =
     (case create_availability requests0 of
        Inl e \<Rightarrow> Inl e
      | Inr availability \<Rightarrow> main_loop rnd (initial_state requests0 availability))"

section \<open>Invariant of the resolver loop\<close>

text \<open>
  What holds of the program's variables each time the loop tests \<open>len(requests)\<close>, for
  the requests \<open>requests0\<close> read at the start and the tracker \<open>av0\<close> built from them:
  the tracker has the keys it was built with; every count lies between 0 and \<open>ROOMS\<close>; no
  reservation of the pool touches a day of count 0; pool, granted and removed reservations
  together are the requests read; and the passes made so far and the pool together are no
  more than the requests read. It is a statement about the program, not part of it.
\<close>

definition resolver_inv :: "reservation list \<Rightarrow> counter \<Rightarrow> state \<Rightarrow> bool" where
  "resolver_inv requests0 av0 s \<longleftrightarrow>
     dom (availablility s) = dom av0
     \<and> (\<forall>d. 0 \<le> counter_get (availablility s) d \<and> counter_get (availablility s) d \<le> ROOMS)
     \<and> (\<forall>r\<in>set (requests s). \<not> conflicting (availablility s) r)
     \<and> mset (requests s) + mset (chosen s) + mset (removed_log s) = mset requests0
     \<and> draws s + length (requests s) \<le> length requests0"

section \<open>Properties of the calendar range\<close>

lemma date_range_upto: "date_range s e = [s..e - 1]"
proof (induction s e rule: date_range.induct)
  case (1 current end')
  show ?case
  proof (cases "current < end'")
    case True
    with 1 have "date_range (current + step) end' = [current + 1..end' - 1]"
      by (simp add: step_def)
    with True show ?thesis
      by (subst date_range.simps) (simp add: step_def upto_rec1)
  next
    case False
    then show ?thesis
      by (subst date_range.simps) simp
  qed
qed

lemma set_date_range: "set (date_range s e) = {d. s \<le> d \<and> d < e}"
  by (auto simp: date_range_upto)

lemma distinct_date_range: "distinct (date_range s e)"
  by (simp add: date_range_upto)

lemma date_range_empty: "e \<le> s \<Longrightarrow> date_range s e = []"
  by (simp add: date_range_upto)

lemma date_range_nth:
  "i < nat (e - s) \<Longrightarrow> date_range s e ! i = s + int i"
  by (simp add: date_range_upto)

lemma length_date_range: "length (date_range s e) = nat (e - s)"
  by (simp add: date_range_upto)

text \<open>
  C3. Range semantics: \<open>date_range start end\<close> yields exactly the consecutive dates from
  \<open>start\<close> inclusive to \<open>end\<close> exclusive, one day apart: it has \<open>end - start\<close>
  elements (none when \<open>start \<ge> end\<close>) and its \<open>i\<close>-th element is \<open>start + i\<close> days.
  When \<open>start \<ge> end\<close> it is empty, and from 2024-01-01 (ordinal 738886) to 2024-01-04
  (ordinal 738889) it yields exactly 2024-01-01, 2024-01-02, 2024-01-03.
\<close>

theorem date_range_semantics:
  "length (date_range start_d end_d) = nat (end_d - start_d)
   \<and> (\<forall>i < nat (end_d - start_d). date_range start_d end_d ! i = start_d + int i)
   \<and> set (date_range start_d end_d) = {d. start_d \<le> d \<and> d < end_d}
   \<and> (end_d \<le> start_d \<longrightarrow> date_range start_d end_d = [])
   \<and> date_range 738886 738889 = [738886, 738887, 738888]"
proof -
  have "date_range 738886 738889 = [738886, 738887, 738888]"
    by (simp add: date_range_upto upto_rec1)
  then show ?thesis
    by (simp add: length_date_range date_range_nth set_date_range date_range_empty)
qed

theorem date_range_semantics_witness:
  "length (date_range 5 8) = 3
   \<and> date_range 5 8 ! 2 = 7
   \<and> date_range 8 5 = []
   \<and> date_range 5 5 = []"
proof -
  have a: "length (date_range 5 8) = nat (8 - 5)"
    and b: "\<forall>i < nat (8 - 5). date_range 5 8 ! i = 5 + int i"
    using date_range_semantics [of 5 8] by blast+
  have c: "date_range 8 5 = []"
    using date_range_semantics [of 8 5] by simp
  have d: "date_range 5 5 = []"
    using date_range_semantics [of 5 5] by simp
  from b have "date_range 5 8 ! 2 = 5 + int 2" by simp
  with a c d show ?thesis by simp
qed

section \<open>Properties of the availability tracker\<close>

lemma counter_get_upd [simp]:
  "counter_get (av(d \<mapsto> v)) x = (if x = d then v else counter_get av x)"
  by (simp add: counter_get_def)

lemma update_days_success:
  "distinct days \<Longrightarrow> \<forall>d\<in>set days. 1 \<le> counter_get av d \<Longrightarrow>
     update_days r days av =
       Inr (\<lambda>d. if d \<in> set days then Some (counter_get av d - 1) else av d)"
proof (induction days arbitrary: av)
  case Nil
  then show ?case by simp
next
  case (Cons day days)
  let ?av' = "av(day \<mapsto> counter_get av day - 1)"
  from Cons.prems have d: "distinct days" and notin: "day \<notin> set days"
    and ge: "1 \<le> counter_get av day" by simp_all
  from Cons.prems notin have "\<forall>d\<in>set days. 1 \<le> counter_get ?av' d" by auto
  from Cons.IH [OF d this]
  have "update_days r days ?av' =
          Inr (\<lambda>d. if d \<in> set days then Some (counter_get ?av' d - 1) else ?av' d)" .
  also have "(\<lambda>d. if d \<in> set days then Some (counter_get ?av' d - 1) else ?av' d) =
             (\<lambda>d. if d \<in> set (day # days) then Some (counter_get av d - 1) else av d)"
    using notin by (auto simp: fun_eq_iff)
  finally have rest: "update_days r days ?av' =
      Inr (\<lambda>d. if d \<in> set (day # days) then Some (counter_get av d - 1) else av d)" .
  have "update_days r (day # days) av = update_days r days ?av'"
    using ge by (simp add: Let_def)
  with rest show ?case by simp
qed

lemma update_days_failure:
  "distinct (pre @ d # post) \<Longrightarrow> \<forall>x\<in>set pre. 1 \<le> counter_get av x \<Longrightarrow>
   counter_get av d \<le> 0 \<Longrightarrow>
     update_days r (pre @ d # post) av =
       Inl (ValueError_goes_below_zero r d,
            \<lambda>x. if x \<in> set pre \<or> x = d then Some (counter_get av x - 1) else av x)"
proof (induction pre arbitrary: av)
  case Nil
  then show ?case by (auto simp: Let_def fun_eq_iff)
next
  case (Cons day pre)
  let ?av' = "av(day \<mapsto> counter_get av day - 1)"
  from Cons.prems have dist: "distinct (pre @ d # post)" and notin: "day \<notin> set pre" "day \<noteq> d"
    and ge: "1 \<le> counter_get av day" by auto
  from Cons.prems notin have a: "\<forall>x\<in>set pre. 1 \<le> counter_get ?av' x" by auto
  from Cons.prems notin have b: "counter_get ?av' d \<le> 0" by auto
  from Cons.IH [OF dist a b]
  have "update_days r (pre @ d # post) ?av' =
          Inl (ValueError_goes_below_zero r d,
               \<lambda>x. if x \<in> set pre \<or> x = d then Some (counter_get ?av' x - 1) else ?av' x)" .
  also have "(\<lambda>x. if x \<in> set pre \<or> x = d then Some (counter_get ?av' x - 1) else ?av' x) =
             (\<lambda>x. if x \<in> set (day # pre) \<or> x = d then Some (counter_get av x - 1) else av x)"
    using notin by (auto simp: fun_eq_iff)
  finally have rest: "update_days r (pre @ d # post) ?av' =
      Inl (ValueError_goes_below_zero r d,
           \<lambda>x. if x \<in> set (day # pre) \<or> x = d then Some (counter_get av x - 1) else av x)" .
  have "update_days r ((day # pre) @ d # post) av = update_days r (pre @ d # post) ?av'"
    using ge by (simp add: Let_def)
  with rest show ?case by simp
qed

lemma update_days_cases:
  assumes "distinct days"
  shows "(\<forall>d\<in>set days. 1 \<le> counter_get av d) \<and>
           update_days r days av =
             Inr (\<lambda>d. if d \<in> set days then Some (counter_get av d - 1) else av d)
         \<or> (\<exists>pre d post. days = pre @ d # post \<and> (\<forall>x\<in>set pre. 1 \<le> counter_get av x) \<and>
               counter_get av d \<le> 0 \<and>
               update_days r days av =
                 Inl (ValueError_goes_below_zero r d,
                      \<lambda>x. if x \<in> set pre \<or> x = d then Some (counter_get av x - 1) else av x))"
proof (cases "\<forall>d\<in>set days. 1 \<le> counter_get av d")
  case True
  with update_days_success [OF assms] show ?thesis by blast
next
  case False
  then have "\<exists>d\<in>set days. \<not> 1 \<le> counter_get av d" by blast
  then obtain pre d post where
    split: "days = pre @ d # post" and d: "\<not> 1 \<le> counter_get av d"
    and pre: "\<forall>x\<in>set pre. \<not> \<not> 1 \<le> counter_get av x"
    by (auto dest!: split_list_first_prop)
  from d have le: "counter_get av d \<le> 0" by simp
  from pre have pre': "\<forall>x\<in>set pre. 1 \<le> counter_get av x" by simp
  from assms split have "distinct (pre @ d # post)" by simp
  from update_days_failure [OF this pre' le] split pre' le show ?thesis by blast
qed


lemma sorted_distinct_prefix:
  fixes d :: int
  assumes "sorted (pre @ d # post)" "distinct (pre @ d # post)"
  shows "set pre = {x \<in> set (pre @ d # post). x < d}"
proof -
  from assms have le: "\<forall>x\<in>set pre. x \<le> d" and ge: "\<forall>x\<in>set post. d \<le> x"
    and notin: "d \<notin> set pre"
    by (auto simp: sorted_append)
  have "\<forall>x\<in>set pre. x < d"
  proof
    fix x assume x: "x \<in> set pre"
    with le have "x \<le> d" by blast
    moreover from x notin have "x \<noteq> d" by blast
    ultimately show "x < d" by simp
  qed
  moreover have "\<forall>x\<in>set post. \<not> x < d" using ge by fastforce
  ultimately show ?thesis by auto
qed

lemma update_availability_cases:
  "(\<forall>d\<in>set (date_range (start r) (end_date r)). 1 \<le> counter_get av d) \<and>
     update_availability r av =
       Inr (\<lambda>d. if d \<in> set (date_range (start r) (end_date r))
                then Some (counter_get av d - 1) else av d)
   \<or> (\<exists>d\<in>set (date_range (start r) (end_date r)).
         (\<forall>x\<in>set (date_range (start r) (end_date r)). x < d \<longrightarrow> 1 \<le> counter_get av x) \<and>
         counter_get av d \<le> 0 \<and>
         update_availability r av =
           Inl (ValueError_goes_below_zero r d,
                \<lambda>x. if x \<in> set (date_range (start r) (end_date r)) \<and> x \<le> d
                    then Some (counter_get av x - 1) else av x))"
proof -
  define ds where "ds = date_range (start r) (end_date r)"
  have dist: "distinct ds" unfolding ds_def by (rule distinct_date_range)
  have srt: "sorted ds" unfolding ds_def by (simp add: date_range_upto)
  have upd: "update_availability r av = update_days r ds av"
    unfolding ds_def update_availability_def ..
  from update_days_cases [OF dist, of av r]
  have "(\<forall>d\<in>set ds. 1 \<le> counter_get av d) \<and>
     update_availability r av =
       Inr (\<lambda>d. if d \<in> set ds then Some (counter_get av d - 1) else av d)
   \<or> (\<exists>d\<in>set ds.
         (\<forall>x\<in>set ds. x < d \<longrightarrow> 1 \<le> counter_get av x) \<and>
         counter_get av d \<le> 0 \<and>
         update_availability r av =
           Inl (ValueError_goes_below_zero r d,
                \<lambda>x. if x \<in> set ds \<and> x \<le> d then Some (counter_get av x - 1) else av x))"
  proof (elim disjE conjE exE)
    assume "\<forall>d\<in>set ds. 1 \<le> counter_get av d"
      and "update_days r ds av =
             Inr (\<lambda>d. if d \<in> set ds then Some (counter_get av d - 1) else av d)"
    then show ?thesis unfolding upd by (intro disjI1 conjI)
  next
    fix pre d post
    assume split: "ds = pre @ d # post"
      and pre: "\<forall>x\<in>set pre. 1 \<le> counter_get av x"
      and le: "counter_get av d \<le> 0"
      and res: "update_days r ds av =
         Inl (ValueError_goes_below_zero r d,
              \<lambda>x. if x \<in> set pre \<or> x = d then Some (counter_get av x - 1) else av x)"
    from dist srt have "sorted (pre @ d # post)" "distinct (pre @ d # post)"
      unfolding split by blast+
    then have "set pre = {x \<in> set (pre @ d # post). x < d}"
      by (rule sorted_distinct_prefix)
    then have p: "set pre = {x \<in> set ds. x < d}" unfolding split .
    have din: "d \<in> set ds" unfolding split by simp
    have iff: "\<And>x. (x \<in> set pre \<or> x = d) = (x \<in> set ds \<and> x \<le> d)"
      unfolding p using din by auto
    from res have r1: "update_availability r av =
         Inl (ValueError_goes_below_zero r d,
              \<lambda>x. if x \<in> set ds \<and> x \<le> d then Some (counter_get av x - 1) else av x)"
      unfolding upd iff .
    from pre have r2: "\<forall>x\<in>set ds. x < d \<longrightarrow> 1 \<le> counter_get av x"
      unfolding p by blast
    from din r2 le r1 show ?thesis by (intro disjI2 bexI [of _ d] conjI)
  qed
  then show ?thesis unfolding ds_def .
qed




text \<open>
  C9. Commit is not atomic on failure: if \<open>update_availability\<close> raises, it raises for a
  date \<open>d\<close> of the span whose decrement goes below 0; in the counter at that moment every
  date of the span strictly before \<open>d\<close> holds its old count minus 1 (still non-negative),
  \<open>d\<close> holds its old count minus 1, which is below 0 and is -1 exactly when the old
  count was 0, the dates after \<open>d\<close> and outside the span are untouched, and the counter
  differs from the one before the call: it is not restored.
\<close>

theorem commit_not_atomic:
  assumes "update_availability r av = Inl (e, av')"
  shows "\<exists>d\<in>set (date_range (start r) (end_date r)).
           e = ValueError_goes_below_zero r d
           \<and> counter_get av d - 1 < 0
           \<and> (\<forall>x\<in>set (date_range (start r) (end_date r)). x < d \<longrightarrow>
                 0 \<le> counter_get av x - 1 \<and> av' x = Some (counter_get av x - 1))
           \<and> av' d = Some (counter_get av d - 1)
           \<and> (av' d = Some (- 1) \<longleftrightarrow> counter_get av d = 0)
           \<and> (\<forall>x. x \<notin> set (date_range (start r) (end_date r)) \<or> d < x \<longrightarrow> av' x = av x)
           \<and> av' \<noteq> av"
proof -
  define days where "days = set (date_range (start r) (end_date r))"
  from update_availability_cases [of r av] assms
  obtain d where din: "d \<in> days"
    and pre: "\<forall>x\<in>days. x < d \<longrightarrow> 1 \<le> counter_get av x"
    and le: "counter_get av d \<le> 0"
    and res: "Inl (e, av') =
       (Inl (ValueError_goes_below_zero r d,
            \<lambda>x. if x \<in> days \<and> x \<le> d then Some (counter_get av x - 1) else av x)
        :: (error \<times> counter) + counter)"
    unfolding days_def by force
  from res have e: "e = ValueError_goes_below_zero r d"
    and av': "av' = (\<lambda>x. if x \<in> days \<and> x \<le> d then Some (counter_get av x - 1) else av x)"
    by simp_all
  have neq: "av' \<noteq> av"
  proof
    assume "av' = av"
    then have "av' d = av d" by simp
    with av' din have "av d = Some (counter_get av d - 1)" by simp
    then show False by (cases "av d") (simp_all add: counter_get_def)
  qed
  have 1: "counter_get av d - 1 < 0" using le by simp
  have 2: "\<forall>x\<in>days. x < d \<longrightarrow> 0 \<le> counter_get av x - 1 \<and> av' x = Some (counter_get av x - 1)"
    using pre av' by fastforce
  have 3: "av' d = Some (counter_get av d - 1)" using av' din by simp
  have 4: "av' d = Some (- 1) \<longleftrightarrow> counter_get av d = 0" unfolding 3 by auto
  have 5: "\<forall>x. x \<notin> days \<or> d < x \<longrightarrow> av' x = av x" using av' by auto
  from din e 1 2 3 4 5 neq
  have "\<exists>d\<in>days. e = ValueError_goes_below_zero r d
           \<and> counter_get av d - 1 < 0
           \<and> (\<forall>x\<in>days. x < d \<longrightarrow> 0 \<le> counter_get av x - 1 \<and> av' x = Some (counter_get av x - 1))
           \<and> av' d = Some (counter_get av d - 1)
           \<and> (av' d = Some (- 1) \<longleftrightarrow> counter_get av d = 0)
           \<and> (\<forall>x. x \<notin> days \<or> d < x \<longrightarrow> av' x = av x)
           \<and> av' \<noteq> av"
    by blast
  then show ?thesis unfolding days_def .
qed

theorem commit_not_atomic_witness:
  "update_availability (Reservation 1 4 ''Bob'') [1 \<mapsto> 1, 2 \<mapsto> 0, 3 \<mapsto> 2] =
     Inl (ValueError_goes_below_zero (Reservation 1 4 ''Bob'') 2,
          [1 \<mapsto> 0, 2 \<mapsto> - 1, 3 \<mapsto> 2])
   \<and> ([1 \<mapsto> 0, 2 \<mapsto> - 1, 3 \<mapsto> 2] :: counter) \<noteq> [1 \<mapsto> 1, 2 \<mapsto> 0, 3 \<mapsto> 2]"
proof -
  have dr: "date_range 1 4 = [1, 2, 3]"
    by (simp add: date_range_upto upto_rec1)
  have run: "update_availability (Reservation 1 4 ''Bob'') [1 \<mapsto> 1, 2 \<mapsto> 0, 3 \<mapsto> 2] =
     Inl (ValueError_goes_below_zero (Reservation 1 4 ''Bob'') 2,
          [1 \<mapsto> 0, 2 \<mapsto> - 1, 3 \<mapsto> 2])"
    by (simp add: update_availability_def dr Let_def fun_eq_iff)
  from commit_not_atomic [OF run]
  have "([1 \<mapsto> 0, 2 \<mapsto> - 1, 3 \<mapsto> 2] :: counter) \<noteq> [1 \<mapsto> 1, 2 \<mapsto> 0, 3 \<mapsto> 2]"
    by blast
  with run show ?thesis by blast
qed

text \<open>
  The count left at the failing date is not always -1. A failed call on a day of count 0
  leaves that day at -1; the same call made again on the counter so left finds the count -1,
  stores -2 and raises again.
\<close>

theorem commit_not_atomic_counterexample:
  "update_availability (Reservation 1 2 ''Bob'') [1 \<mapsto> 0] =
     Inl (ValueError_goes_below_zero (Reservation 1 2 ''Bob'') 1, [1 \<mapsto> - 1])
   \<and> update_availability (Reservation 1 2 ''Bob'') [1 \<mapsto> - 1] =
     Inl (ValueError_goes_below_zero (Reservation 1 2 ''Bob'') 1, [1 \<mapsto> - 2])
   \<and> ([1 \<mapsto> - 2] :: counter) 1 \<noteq> Some (- 1)"
proof -
  have dr: "date_range 1 2 = [1]"
    by (simp add: date_range_upto upto_rec1)
  show ?thesis
    by (simp add: update_availability_def dr Let_def)
qed

section \<open>Properties of building the tracker\<close>

lemma py_min_nonempty: "xs \<noteq> [] \<Longrightarrow> py_min xs = Inr (Min (set xs))"
  by (cases xs) (simp_all add: Min.set_eq_fold [symmetric] del: set_simps)

lemma py_max_nonempty: "xs \<noteq> [] \<Longrightarrow> py_max xs = Inr (Max (set xs))"
  by (cases xs) (simp_all add: Max.set_eq_fold [symmetric] del: set_simps)

lemma fold_store:
  "fold (\<lambda>date availability. availability(date \<mapsto> v)) ds m =
     (\<lambda>d. if d \<in> set ds then Some v else m d)"
  by (induction ds arbitrary: m) (auto simp: fun_eq_iff)

lemma create_availability_nonempty:
  assumes "rs \<noteq> []"
  shows "create_availability rs =
     Inr (\<lambda>d. if d \<in> set (date_range (Min (start ` set rs)) (Max (end_date ` set rs)))
              then Some ROOMS else None)"
  using assms
  by (simp add: create_availability_def py_min_nonempty py_max_nonempty fold_store)

lemma create_availability_empty: "create_availability [] = Inl ValueError_min_empty"
  by (simp add: create_availability_def)

text \<open>
  C8. Empty input: \<open>create_availability\<close> of an empty list raises at once, in the
  \<open>min\<close> that is its first statement, before a counter exists, and the program ends there
  without entering the loop. For every non-empty list it returns a counter that holds
  \<open>ROOMS\<close> for every date of \<open>date_range(min start, max end)\<close> and has no other key.
\<close>

theorem build_empty_or_domain:
  "create_availability [] = Inl ValueError_min_empty
   \<and> main rnd [] = Inl ValueError_min_empty
   \<and> (rs \<noteq> [] \<longrightarrow>
        (\<exists>av. create_availability rs = Inr av \<and>
          (\<forall>d. av d =
             (if d \<in> set (date_range (Min (start ` set rs)) (Max (end_date ` set rs)))
              then Some ROOMS else None))))"
  by (simp add: create_availability_empty create_availability_nonempty main_def)

theorem build_empty_or_domain_witness:
  "create_availability [Reservation 3 5 ''Alice'', Reservation 1 4 ''Bob''] =
     Inr [1 \<mapsto> 2, 2 \<mapsto> 2, 3 \<mapsto> 2, 4 \<mapsto> 2]"
proof -
  have ne: "[Reservation 3 5 ''Alice'', Reservation 1 4 ''Bob''] \<noteq> []" by simp
  have dr: "date_range 1 5 = [1, 2, 3, 4]"
    by (simp add: date_range_upto upto_rec1)
  from build_empty_or_domain [of _ "[Reservation 3 5 ''Alice'', Reservation 1 4 ''Bob'']"] ne
  obtain av where av: "create_availability [Reservation 3 5 ''Alice'', Reservation 1 4 ''Bob''] = Inr av"
    and dom: "\<forall>d. av d =
             (if d \<in> set (date_range (Min (start ` set [Reservation 3 5 ''Alice'', Reservation 1 4 ''Bob'']))
                 (Max (end_date ` set [Reservation 3 5 ''Alice'', Reservation 1 4 ''Bob''])))
              then Some ROOMS else None)"
    by blast
  from dom have "av = [1 \<mapsto> 2, 2 \<mapsto> 2, 3 \<mapsto> 2, 4 \<mapsto> 2]"
    by (simp add: fun_eq_iff dr ROOMS_def)
  with av show ?thesis by simp
qed


section \<open>Properties of the conflict pruner\<close>

lemma conflicting_iff:
  "conflicting av r \<longleftrightarrow>
     (\<exists>d\<in>set (date_range (start r) (end_date r)). counter_get av d = 0)"
  by (simp add: conflicting_def list_ex_iff)

lemma filter_remove1_dropped:
  "P z \<Longrightarrow> filter (\<lambda>x. \<not> P x) (remove1 z xs) = filter (\<lambda>x. \<not> P x) xs"
  by (induction xs) auto

lemma remove_loop_filter:
  "mset (filter P snapshot) \<subseteq># mset (filter P rs) \<Longrightarrow>
   P = conflicting av \<Longrightarrow>
     \<exists>rs'. remove_loop snapshot av (rs, removed) = Inr (rs', removed @ filter P snapshot)
       \<and> filter (\<lambda>x. \<not> P x) rs' = filter (\<lambda>x. \<not> P x) rs
       \<and> mset (filter P rs') = mset (filter P rs) - mset (filter P snapshot)"
proof (induction snapshot arbitrary: rs removed)
  case Nil
  then show ?case by simp
next
  case (Cons r snapshot)
  show ?case
  proof (cases "P r")
    case True
    with Cons.prems have sub: "add_mset r (mset (filter P snapshot)) \<subseteq># mset (filter P rs)"
      by simp
    then have "r \<in># mset (filter P rs)"
      by (meson insert_subset_eq_iff)
    then have rin: "r \<in> set rs" by simp
    have f1: "mset (filter P (remove1 r rs)) = mset (filter P rs) - {#r#}"
      using True by (simp add: filter_remove1 [symmetric] mset_filter del: filter_remove1)
    from sub have "mset (filter P snapshot) \<subseteq># mset (filter P rs) - {#r#}"
      by (simp add: insert_subset_eq_iff)
    with f1 have sub': "mset (filter P snapshot) \<subseteq># mset (filter P (remove1 r rs))" by simp
    from Cons.IH [OF sub' Cons.prems(2), of "removed @ [r]"]
    obtain rs' where
      run: "remove_loop snapshot av (remove1 r rs, removed @ [r]) =
              Inr (rs', (removed @ [r]) @ filter P snapshot)"
      and keep: "filter (\<lambda>x. \<not> P x) rs' = filter (\<lambda>x. \<not> P x) (remove1 r rs)"
      and rest: "mset (filter P rs') = mset (filter P (remove1 r rs)) - mset (filter P snapshot)"
      by blast
    have step: "remove_loop (r # snapshot) av (rs, removed) =
                  remove_loop snapshot av (remove1 r rs, removed @ [r])"
      using True rin Cons.prems(2) by (simp add: list_remove_def)
    from keep True have keep': "filter (\<lambda>x. \<not> P x) rs' = filter (\<lambda>x. \<not> P x) rs"
      by (simp add: filter_remove1_dropped)
    from rest f1 True have rest': "mset (filter P rs') = mset (filter P rs) - mset (filter P (r # snapshot))"
      by (simp add: diff_diff_add)
    from step run keep' rest' True show ?thesis by simp
  next
    case False
    with Cons.prems have sub: "mset (filter P snapshot) \<subseteq># mset (filter P rs)" by simp
    from Cons.IH [OF sub Cons.prems(2), of removed] False Cons.prems(2)
    show ?thesis by simp
  qed
qed

lemma filter_all_dropped:
  assumes "filter P xs = []"
  shows "filter (\<lambda>x. \<not> P x) xs = xs"
  using assms by (induction xs) (auto split: if_splits)

lemma remove_loop_any_order:
  assumes "mset snapshot = mset rs"
  shows "remove_loop snapshot av (rs, removed) =
           Inr (filter (\<lambda>r. \<not> conflicting av r) rs,
                removed @ filter (conflicting av) snapshot)"
proof -
  from assms have eq: "mset (filter (conflicting av) snapshot) = mset (filter (conflicting av) rs)"
    by (simp add: mset_filter)
  then have "mset (filter (conflicting av) snapshot) \<subseteq># mset (filter (conflicting av) rs)"
    by simp
  from remove_loop_filter [OF this refl, of removed]
  obtain rs' where
    run: "remove_loop snapshot av (rs, removed) =
            Inr (rs', removed @ filter (conflicting av) snapshot)"
    and keep: "filter (\<lambda>x. \<not> conflicting av x) rs' = filter (\<lambda>x. \<not> conflicting av x) rs"
    and rest: "mset (filter (conflicting av) rs') =
                 mset (filter (conflicting av) rs) - mset (filter (conflicting av) snapshot)"
    by blast
  from rest eq have "mset (filter (conflicting av) rs') = {#}" by simp
  then have "filter (conflicting av) rs' = []" by (simp only: mset_zero_iff)
  then have "filter (\<lambda>x. \<not> conflicting av x) rs' = rs'" by (rule filter_all_dropped)
  with keep have "rs' = filter (\<lambda>x. \<not> conflicting av x) rs" by simp
  with run show ?thesis by simp
qed

lemma remove_conflicting_filter:
  "remove_conflicting rs av =
     Inr (filter (\<lambda>r. \<not> conflicting av r) rs, filter (conflicting av) rs)"
  unfolding remove_conflicting_def using remove_loop_any_order [OF refl, of rs av "[]"] by simp


text \<open>
  C2. Prune correctness: for every pool and counter, \<open>remove_conflicting\<close> raises nothing
  and leaves in the pool exactly the reservations whose span holds no date of count 0, in
  their order and with their multiplicity: the pool filtered. The same pool results when the
  loop visits the reservations in any other order (any rearrangement of the snapshot).
\<close>

theorem prune_is_filter:
  "(\<exists>removed. remove_conflicting pool av =
       Inr (filter (\<lambda>r. \<forall>d\<in>set (date_range (start r) (end_date r)). counter_get av d \<noteq> 0) pool,
            removed))
   \<and> (\<forall>snapshot removed0. mset snapshot = mset pool \<longrightarrow>
        (\<exists>removed. remove_loop snapshot av (pool, removed0) =
           Inr (filter (\<lambda>r. \<forall>d\<in>set (date_range (start r) (end_date r)). counter_get av d \<noteq> 0) pool,
                removed)))"
proof -
  have eq: "(\<lambda>r. \<forall>d\<in>set (date_range (start r) (end_date r)). counter_get av d \<noteq> 0) =
            (\<lambda>r. \<not> conflicting av r)"
    by (simp add: conflicting_iff fun_eq_iff)
  show ?thesis
    unfolding eq by (simp add: remove_conflicting_filter remove_loop_any_order)
qed

theorem prune_is_filter_witness:
  "(\<exists>removed. remove_conflicting
       [Reservation 1 3 ''X'', Reservation 3 4 ''Y'', Reservation 2 3 ''Z'']
       [1 \<mapsto> 1, 2 \<mapsto> 0, 3 \<mapsto> 1] = Inr ([Reservation 3 4 ''Y''], removed))
   \<and> (\<exists>removed. remove_loop
       [Reservation 2 3 ''Z'', Reservation 3 4 ''Y'', Reservation 1 3 ''X'']
       [1 \<mapsto> 1, 2 \<mapsto> 0, 3 \<mapsto> 1]
       ([Reservation 1 3 ''X'', Reservation 3 4 ''Y'', Reservation 2 3 ''Z''], []) =
         Inr ([Reservation 3 4 ''Y''], removed))"
proof -
  have dr: "date_range 1 3 = [1, 2]" "date_range 3 4 = [3]" "date_range 2 3 = [2]"
    by (simp_all add: date_range_upto upto_rec1)
  have flt: "filter (\<lambda>r. \<forall>d\<in>set (date_range (start r) (end_date r)).
                 counter_get [1 \<mapsto> 1, 2 \<mapsto> 0, 3 \<mapsto> 1] d \<noteq> 0)
               [Reservation 1 3 ''X'', Reservation 3 4 ''Y'', Reservation 2 3 ''Z''] =
             [Reservation 3 4 ''Y'']"
    by (simp add: dr)
  have perm: "mset [Reservation 2 3 ''Z'', Reservation 3 4 ''Y'', Reservation 1 3 ''X''] =
              mset [Reservation 1 3 ''X'', Reservation 3 4 ''Y'', Reservation 2 3 ''Z'']"
    by simp
  note inst = prune_is_filter
    [of "[Reservation 1 3 ''X'', Reservation 3 4 ''Y'', Reservation 2 3 ''Z'']"
        "[1 \<mapsto> 1, 2 \<mapsto> 0, 3 \<mapsto> 1]"]
  from inst have a: "\<exists>removed. remove_conflicting
       [Reservation 1 3 ''X'', Reservation 3 4 ''Y'', Reservation 2 3 ''Z'']
       [1 \<mapsto> 1, 2 \<mapsto> 0, 3 \<mapsto> 1] = Inr ([Reservation 3 4 ''Y''], removed)"
    unfolding flt by (rule conjunct1)
  from inst have "\<forall>snapshot removed0.
       mset snapshot = mset [Reservation 1 3 ''X'', Reservation 3 4 ''Y'', Reservation 2 3 ''Z''] \<longrightarrow>
        (\<exists>removed. remove_loop snapshot [1 \<mapsto> 1, 2 \<mapsto> 0, 3 \<mapsto> 1]
           ([Reservation 1 3 ''X'', Reservation 3 4 ''Y'', Reservation 2 3 ''Z''], removed0) =
           Inr ([Reservation 3 4 ''Y''], removed))"
    unfolding flt by (rule conjunct2)
  with perm have b: "\<exists>removed. remove_loop
       [Reservation 2 3 ''Z'', Reservation 3 4 ''Y'', Reservation 1 3 ''X'']
       [1 \<mapsto> 1, 2 \<mapsto> 0, 3 \<mapsto> 1]
       ([Reservation 1 3 ''X'', Reservation 3 4 ''Y'', Reservation 2 3 ''Z''], []) =
         Inr ([Reservation 3 4 ''Y''], removed)"
    by blast
  from a b show ?thesis by (rule conjI)
qed

text \<open>
  C10. Dates outside the domain read as zero: a date \<open>d\<close> that is not a key of the counter
  reads as 0 and raises nothing, so \<open>remove_conflicting\<close> succeeds and removes every
  reservation of the pool whose span contains \<open>d\<close>. For a counter built by
  \<open>create_availability\<close> these are the dates outside \<open>date_range(min start, max end)\<close>.
\<close>

theorem out_of_domain_reads_zero:
  assumes "av d = None"
  shows "counter_get av d = 0
    \<and> (\<forall>pool r. r \<in> set pool \<and> d \<in> set (date_range (start r) (end_date r)) \<longrightarrow>
         (\<exists>pool' removed. remove_conflicting pool av = Inr (pool', removed)
            \<and> r \<notin> set pool' \<and> r \<in> set removed))
    \<and> (\<forall>reqs av0. create_availability reqs = Inr av0
          \<and> d \<notin> set (date_range (Min (start ` set reqs)) (Max (end_date ` set reqs)))
          \<longrightarrow> av0 d = None \<and> counter_get av0 d = 0)"
proof -
  from assms have zero: "counter_get av d = 0" by (simp add: counter_get_def)
  have prune: "\<exists>pool' removed. remove_conflicting pool av = Inr (pool', removed)
            \<and> r \<notin> set pool' \<and> r \<in> set removed"
    if "r \<in> set pool \<and> d \<in> set (date_range (start r) (end_date r))" for pool r
  proof -
    from that zero have "r \<in> set pool" "conflicting av r"
      by (auto simp: conflicting_iff)
    then show ?thesis by (simp add: remove_conflicting_filter)
  qed
  have built: "av0 d = None \<and> counter_get av0 d = 0"
    if a: "create_availability reqs = Inr av0
          \<and> d \<notin> set (date_range (Min (start ` set reqs)) (Max (end_date ` set reqs)))"
    for reqs av0
  proof -
    from a have "reqs \<noteq> []" by (auto simp: create_availability_empty)
    from create_availability_nonempty [OF this] a
    show ?thesis by (auto simp: counter_get_def)
  qed
  from zero prune built show ?thesis by blast
qed

theorem out_of_domain_reads_zero_witness:
  "counter_get [1 \<mapsto> 2, 2 \<mapsto> 2] 3 = 0
   \<and> (\<exists>pool' removed.
        remove_conflicting [Reservation 2 4 ''Dora'', Reservation 1 2 ''Eve''] [1 \<mapsto> 2, 2 \<mapsto> 2] =
          Inr (pool', removed)
        \<and> Reservation 2 4 ''Dora'' \<notin> set pool' \<and> Reservation 2 4 ''Dora'' \<in> set removed)"
proof -
  have none: "[1 \<mapsto> 2, 2 \<mapsto> (2::int)] (3::int) = None" by simp
  have dr: "date_range 2 4 = [2, 3]"
    by (simp add: date_range_upto upto_rec1)
  have mem: "Reservation 2 4 ''Dora'' \<in> set [Reservation 2 4 ''Dora'', Reservation 1 2 ''Eve'']
     \<and> 3 \<in> set (date_range (start (Reservation 2 4 ''Dora'')) (end_date (Reservation 2 4 ''Dora'')))"
    by (simp add: dr)
  note inst = out_of_domain_reads_zero [of "[1 \<mapsto> 2, 2 \<mapsto> 2]" 3, OF none]
  from inst [THEN conjunct1] inst [THEN conjunct2, THEN conjunct1, rule_format, OF mem]
  show ?thesis by (rule conjI)
qed

section \<open>Properties of the resolver loop\<close>

lemma pick_reservation_nonempty:
  assumes "rs \<noteq> []"
  shows "\<exists>picked. picked \<in> set rs \<and> pick_reservation r rs = Inr (picked, remove1 picked rs)"
proof -
  from assms have "r mod length rs < length rs" by simp
  then have "rs ! (r mod length rs) \<in> set rs" by (rule nth_mem)
  with assms show ?thesis
    by (simp add: pick_reservation_def choice_def list_remove_def)
qed

lemma resolver_inv_initial:
  assumes "create_availability requests0 = Inr av0"
  shows "resolver_inv requests0 av0 (initial_state requests0 av0)"
proof -
  from assms have ne: "requests0 \<noteq> []" by (auto simp: create_availability_empty)
  define lo where "lo = Min (start ` set requests0)"
  define hi where "hi = Max (end_date ` set requests0)"
  from create_availability_nonempty [OF ne] assms
  have av0: "av0 = (\<lambda>d. if lo \<le> d \<and> d < hi then Some ROOMS else None)"
    by (simp add: set_date_range lo_def hi_def)
  have bounds: "\<forall>d. 0 \<le> counter_get av0 d \<and> counter_get av0 d \<le> ROOMS"
    by (simp add: av0 counter_get_def ROOMS_def)
  have free: "\<not> conflicting av0 r" if r: "r \<in> set requests0" for r
  proof -
    from r have "lo \<le> start r" "end_date r \<le> hi"
      by (simp_all add: lo_def hi_def)
    then have "\<forall>d\<in>set (date_range (start r) (end_date r)). counter_get av0 d = ROOMS"
      by (auto simp: set_date_range av0 counter_get_def)
    then show ?thesis by (auto simp: conflicting_iff ROOMS_def)
  qed
  from bounds free show ?thesis
    by (simp add: resolver_inv_def initial_state_def)
qed

lemma resolver_inv_step:
  assumes inv: "resolver_inv requests0 av0 s" and ne: "requests s \<noteq> []"
  shows "\<exists>s'. loop_body rnd s = Inr s' \<and> resolver_inv requests0 av0 s'
               \<and> draws s' = Suc (draws s)"
proof -
  define av where "av = availablility s"
  from inv have dom: "dom av = dom av0"
    and bounds: "\<forall>d. 0 \<le> counter_get av d \<and> counter_get av d \<le> ROOMS"
    and free: "\<forall>r\<in>set (requests s). \<not> conflicting av r"
    and part: "mset (requests s) + mset (chosen s) + mset (removed_log s) = mset requests0"
    and cnt: "draws s + length (requests s) \<le> length requests0"
    unfolding resolver_inv_def av_def by blast+
  from pick_reservation_nonempty [OF ne, of "rnd (draws s)"]
  obtain picked where pin: "picked \<in> set (requests s)"
    and pick: "pick_reservation (rnd (draws s)) (requests s) = Inr (picked, remove1 picked (requests s))"
    by blast
  define span where "span = set (date_range (start picked) (end_date picked))"
  define av' where "av' = (\<lambda>d. if d \<in> span then Some (counter_get av d - 1) else av d)"
  from free pin have "\<forall>d\<in>span. counter_get av d \<noteq> 0"
    by (simp add: conflicting_iff span_def)
  with bounds have pos: "\<forall>d\<in>span. 1 \<le> counter_get av d"
    by (metis add.commute add_0 linorder_not_le order_le_less zless_imp_add1_zle)
  with update_availability_cases [of picked av]
  have upd: "update_availability picked av = Inr av'"
    unfolding span_def av'_def by fastforce
  have get': "\<And>d. counter_get av' d = (if d \<in> span then counter_get av d - 1 else counter_get av d)"
    by (simp add: av'_def counter_get_def)
  have bounds': "\<forall>d. 0 \<le> counter_get av' d \<and> counter_get av' d \<le> ROOMS"
  proof
    fix d
    from bounds have "0 \<le> counter_get av d" "counter_get av d \<le> ROOMS" by blast+
    moreover have "d \<in> span \<Longrightarrow> 1 \<le> counter_get av d" using pos by blast
    ultimately show "0 \<le> counter_get av' d \<and> counter_get av' d \<le> ROOMS"
      unfolding get' by auto
  qed
  have "span \<subseteq> dom av"
  proof
    fix d assume "d \<in> span"
    with pos have "counter_get av d \<noteq> 0" by fastforce
    then show "d \<in> dom av" by (auto simp: counter_get_def split: option.splits)
  qed
  then have dom': "dom av' = dom av0"
    unfolding dom [symmetric] av'_def by (auto split: if_splits)
  define requests1 where "requests1 = remove1 picked (requests s)"
  define requests2 where "requests2 = filter (\<lambda>r. \<not> conflicting av' r) requests1"
  define removed where "removed = filter (conflicting av') requests1"
  have prune: "remove_conflicting requests1 av' = Inr (requests2, removed)"
    unfolding requests2_def removed_def by (rule remove_conflicting_filter)
  define s' where "s' = \<lparr>requests = requests2, availablility = av',
      chosen = chosen s @ [picked], removed_log = removed_log s @ removed,
      draws = Suc (draws s)\<rparr>"
  from pick upd prune have body: "loop_body rnd s = Inr s'"
    unfolding loop_body_def s'_def av_def requests1_def by simp
  have free': "\<forall>r\<in>set requests2. \<not> conflicting av' r"
    by (simp add: requests2_def)
  have m1: "mset requests1 + {#picked#} = mset (requests s)"
    using pin by (simp add: requests1_def)
  have m2: "mset requests2 + mset removed = mset requests1"
    unfolding requests2_def removed_def
    using multiset_partition [of "mset requests1" "conflicting av'"]
    by (simp only: mset_filter add.commute)
  from m1 m2 part
  have part': "mset requests2 + mset (chosen s @ [picked]) + mset (removed_log s @ removed)
                 = mset requests0"
    by (simp add: ac_simps) (metis add.assoc add.commute add_mset_add_single union_mset_add_mset_left)
  have "length requests2 \<le> length requests1" by (simp add: requests2_def)
  moreover have "Suc (length requests1) = length (requests s)"
    using pin ne by (simp add: requests1_def length_remove1)
  ultimately have cnt': "Suc (draws s) + length requests2 \<le> length requests0"
    using cnt by simp
  from dom' bounds' free' part' cnt'
  have "resolver_inv requests0 av0 s'"
    unfolding resolver_inv_def s'_def by simp
  moreover have "draws s' = Suc (draws s)" by (simp add: s'_def)
  ultimately show ?thesis using body by blast
qed


lemma loop_body_draws:
  "loop_body rnd s = Inr s' \<Longrightarrow> draws s' = Suc (draws s)"
  by (auto simp: loop_body_def split: sum.splits prod.splits)

lemma loop_passes_inv:
  "resolver_inv requests0 av0 s \<Longrightarrow>
     \<exists>s'. loop_passes n rnd s = Inr s' \<and> resolver_inv requests0 av0 s'"
proof (induction n arbitrary: s)
  case 0
  then show ?case by simp
next
  case (Suc n)
  show ?case
  proof (cases "requests s = []")
    case True
    with Suc.prems show ?thesis by simp
  next
    case False
    from resolver_inv_step [OF Suc.prems False, of rnd]
    obtain s1 where body: "loop_body rnd s = Inr s1" and inv1: "resolver_inv requests0 av0 s1"
      by blast
    from Suc.IH [OF inv1] body False show ?thesis by simp
  qed
qed

lemma loop_passes_enough:
  "length (requests s) \<le> n \<Longrightarrow> loop_passes n rnd s = main_loop rnd s"
proof (induction n arbitrary: s)
  case 0
  then show ?case by (simp add: main_loop.simps)
next
  case (Suc n)
  show ?case
  proof (cases "requests s = []")
    case True
    then show ?thesis by (simp add: main_loop.simps)
  next
    case False
    show ?thesis
    proof (cases "loop_body rnd s")
      case (Inl e)
      with False show ?thesis by (simp add: main_loop.simps [of rnd s])
    next
      case (Inr s1)
      from loop_body_shrinks [OF Inr] Suc.prems have "length (requests s1) \<le> n" by simp
      from Suc.IH [OF this] Inr False show ?thesis
        by (simp add: main_loop.simps [of rnd s])
    qed
  qed
qed

lemma main_loop_final:
  "main_loop rnd s = Inr s' \<Longrightarrow>
     requests s' = [] \<and> draws s \<le> draws s' \<and> (requests s \<noteq> [] \<longrightarrow> draws s < draws s')"
proof (induction rnd s rule: main_loop.induct)
  case (1 rnd s)
  show ?case
  proof (cases "requests s = []")
    case True
    with "1.prems" show ?thesis by (simp add: main_loop.simps [of rnd s])
  next
    case False
    with "1.prems" obtain s1 where body: "loop_body rnd s = Inr s1"
      and rest: "main_loop rnd s1 = Inr s'"
      by (auto simp: main_loop.simps [of rnd s] split: sum.splits)
    from False have "length (requests s) \<noteq> 0" by simp
    from "1.IH" [OF this body rest] loop_body_draws [OF body] show ?thesis by simp
  qed
qed

lemma resolver_run:
  assumes "create_availability requests0 = Inr av0"
  shows "\<exists>s. main rnd requests0 = Inr s
            \<and> loop_passes (length requests0) rnd (initial_state requests0 av0) = Inr s
            \<and> resolver_inv requests0 av0 s \<and> requests s = []
            \<and> (requests0 \<noteq> [] \<longrightarrow> 1 \<le> draws s)"
proof -
  let ?s0 = "initial_state requests0 av0"
  from loop_passes_inv [OF resolver_inv_initial [OF assms], of "length requests0" rnd]
  obtain s where pass: "loop_passes (length requests0) rnd ?s0 = Inr s"
    and inv: "resolver_inv requests0 av0 s"
    by blast
  have "length (requests ?s0) \<le> length requests0" by (simp add: initial_state_def)
  from loop_passes_enough [OF this, of rnd] pass
  have run: "main_loop rnd ?s0 = Inr s" by simp
  with assms have m: "main rnd requests0 = Inr s" by (simp add: main_def)
  from main_loop_final [OF run]
  have "requests s = []" "requests0 \<noteq> [] \<longrightarrow> 1 \<le> draws s"
    by (auto simp: initial_state_def)
  with m pass inv show ?thesis by blast
qed

text \<open>
  A run with pruning: three requests for the same single day, the first of the pool picked in
  every pass. The second grant exhausts the day and the pruner removes the third request.
\<close>

lemmas run_simps =
  loop_body_def pick_reservation_def choice_def list_remove_def update_availability_def
  remove_conflicting_def conflicting_def Let_def fun_eq_iff

lemma pruning_run:
  "create_availability [Reservation 1 2 ''X'', Reservation 1 2 ''Y'', Reservation 1 2 ''Z''] =
     Inr [1 \<mapsto> 2]"
  "loop_passes 1 (\<lambda>_. 0)
     (initial_state [Reservation 1 2 ''X'', Reservation 1 2 ''Y'', Reservation 1 2 ''Z'']
        [1 \<mapsto> 2]) =
     Inr \<lparr>requests = [Reservation 1 2 ''Y'', Reservation 1 2 ''Z''],
          availablility = [1 \<mapsto> 1], chosen = [Reservation 1 2 ''X''],
          removed_log = [], draws = 1\<rparr>"
  "main (\<lambda>_. 0) [Reservation 1 2 ''X'', Reservation 1 2 ''Y'', Reservation 1 2 ''Z''] =
     Inr \<lparr>requests = [], availablility = [1 \<mapsto> 0],
          chosen = [Reservation 1 2 ''X'', Reservation 1 2 ''Y''],
          removed_log = [Reservation 1 2 ''Z''], draws = 2\<rparr>"
proof -
  define X where "X = Reservation 1 2 ''X''"
  define Y where "Y = Reservation 1 2 ''Y''"
  define Z where "Z = Reservation 1 2 ''Z''"
  define rnd where "rnd = (\<lambda>_::nat. 0::nat)"
  have dr: "date_range 1 2 = [1]"
    by (simp add: date_range_upto upto_rec1)
  have cr: "create_availability [X, Y, Z] = Inr [1 \<mapsto> 2]"
    by (simp add: create_availability_def X_def Y_def Z_def dr ROOMS_def)
  define s0 where "s0 = initial_state [X, Y, Z] [1 \<mapsto> 2]"
  define s1 where "s1 = \<lparr>requests = [Y, Z], availablility = [1 \<mapsto> 1],
      chosen = [X], removed_log = [], draws = 1\<rparr>"
  define s2 where "s2 = \<lparr>requests = [], availablility = [1 \<mapsto> 0],
      chosen = [X, Y], removed_log = [Z], draws = 2\<rparr>"
  have b1: "loop_body rnd s0 = Inr s1"
    by (simp add: run_simps s0_def s1_def initial_state_def rnd_def X_def Y_def Z_def dr)
  have b2: "loop_body rnd s1 = Inr s2"
    by (simp add: run_simps s1_def s2_def rnd_def X_def Y_def Z_def dr)
  have l2: "main_loop rnd s2 = Inr s2"
    by (subst main_loop.simps) (simp add: s2_def)
  have l1: "main_loop rnd s1 = Inr s2"
    by (subst main_loop.simps) (simp add: b2 l2, simp add: s1_def)
  have l0: "main_loop rnd s0 = Inr s2"
    by (subst main_loop.simps) (simp add: b1 l1, simp add: s0_def initial_state_def)
  have p1: "loop_passes 1 rnd s0 = Inr s1"
    using b1 by (simp add: s0_def initial_state_def)
  from cr l0 have m: "main rnd [X, Y, Z] = Inr s2"
    by (simp add: main_def s0_def)
  from cr show "create_availability
      [Reservation 1 2 ''X'', Reservation 1 2 ''Y'', Reservation 1 2 ''Z''] = Inr [1 \<mapsto> 2]"
    unfolding X_def Y_def Z_def .
  from p1 show "loop_passes 1 (\<lambda>_. 0)
     (initial_state [Reservation 1 2 ''X'', Reservation 1 2 ''Y'', Reservation 1 2 ''Z'']
        [1 \<mapsto> 2]) =
     Inr \<lparr>requests = [Reservation 1 2 ''Y'', Reservation 1 2 ''Z''],
          availablility = [1 \<mapsto> 1], chosen = [Reservation 1 2 ''X''],
          removed_log = [], draws = 1\<rparr>"
    unfolding s0_def s1_def X_def Y_def Z_def rnd_def .
  from m show "main (\<lambda>_. 0)
      [Reservation 1 2 ''X'', Reservation 1 2 ''Y'', Reservation 1 2 ''Z''] =
     Inr \<lparr>requests = [], availablility = [1 \<mapsto> 0],
          chosen = [Reservation 1 2 ''X'', Reservation 1 2 ''Y''],
          removed_log = [Reservation 1 2 ''Z''], draws = 2\<rparr>"
    unfolding s2_def X_def Y_def Z_def rnd_def .
qed

text \<open>
  C1. Capacity invariant: whenever the tracker can be built, then for every number \<open>n\<close> of
  passes and every sequence of random picks the loop reaches its state after \<open>n\<close> passes
  (its last state when it ends earlier) without raising, and in that state, as in the state
  in which the program ends, the tracker has the keys it was built with and every count
  lies between 0 and \<open>ROOMS\<close>. With \<open>n = 0\<close> this is the tracker as built.
\<close>

theorem capacity_invariant:
  assumes "create_availability requests0 = Inr av0"
  shows "(\<exists>s. loop_passes n rnd (initial_state requests0 av0) = Inr s
            \<and> dom (availablility s) = dom av0
            \<and> (\<forall>d. 0 \<le> counter_get (availablility s) d
                    \<and> counter_get (availablility s) d \<le> ROOMS))
       \<and> (\<exists>s. main rnd requests0 = Inr s
            \<and> dom (availablility s) = dom av0
            \<and> (\<forall>d. 0 \<le> counter_get (availablility s) d
                    \<and> counter_get (availablility s) d \<le> ROOMS))"
proof
  from loop_passes_inv [OF resolver_inv_initial [OF assms], of n rnd]
  show "\<exists>s. loop_passes n rnd (initial_state requests0 av0) = Inr s
            \<and> dom (availablility s) = dom av0
            \<and> (\<forall>d. 0 \<le> counter_get (availablility s) d
                    \<and> counter_get (availablility s) d \<le> ROOMS)"
    unfolding resolver_inv_def by blast
  from resolver_run [OF assms, of rnd]
  show "\<exists>s. main rnd requests0 = Inr s
            \<and> dom (availablility s) = dom av0
            \<and> (\<forall>d. 0 \<le> counter_get (availablility s) d
                    \<and> counter_get (availablility s) d \<le> ROOMS)"
    unfolding resolver_inv_def by blast
qed

theorem capacity_invariant_witness:
  "create_availability [Reservation 1 2 ''X'', Reservation 1 2 ''Y'', Reservation 1 2 ''Z''] =
     Inr [1 \<mapsto> 2]
   \<and> (\<exists>s. loop_passes 1 (\<lambda>_. 0)
          (initial_state [Reservation 1 2 ''X'', Reservation 1 2 ''Y'', Reservation 1 2 ''Z'']
             [1 \<mapsto> 2]) = Inr s
        \<and> availablility s = [1 \<mapsto> 1]
        \<and> dom (availablility s) = dom [1 \<mapsto> (2::int)]
        \<and> 0 \<le> counter_get (availablility s) 1
        \<and> counter_get (availablility s) 1 \<le> ROOMS)"
proof -
  note built = pruning_run(1)
  from capacity_invariant [OF built, of 1 "\<lambda>_. 0", THEN conjunct1]
  obtain s where pass: "loop_passes 1 (\<lambda>_. 0)
          (initial_state [Reservation 1 2 ''X'', Reservation 1 2 ''Y'', Reservation 1 2 ''Z'']
             [1 \<mapsto> 2]) = Inr s"
    and keys: "dom (availablility s) = dom [1 \<mapsto> (2::int)]"
    and bounds: "\<forall>d. 0 \<le> counter_get (availablility s) d \<and> counter_get (availablility s) d \<le> ROOMS"
    by blast
  from pass pruning_run(2) have "availablility s = [1 \<mapsto> 1]" by auto
  with built pass keys bounds show ?thesis by blast
qed


text \<open>
  C6. Termination: for every non-empty initial pool and every sequence of random picks the
  program ends without raising, with an empty pool, after at least one and at most
  \<open>|initial pool|\<close> passes of the loop (\<open>draws\<close> counts them, and the first
  \<open>|initial pool|\<close> passes already give the final state). Every pass that completes makes
  the pool strictly shorter and draws once; the pick removes exactly one element.
\<close>

theorem resolver_terminates:
  assumes "requests0 \<noteq> []"
  shows "(\<exists>av0 s. create_availability requests0 = Inr av0
            \<and> main rnd requests0 = Inr s
            \<and> loop_passes (length requests0) rnd (initial_state requests0 av0) = Inr s
            \<and> requests s = []
            \<and> 1 \<le> draws s \<and> draws s \<le> length requests0)
       \<and> (\<forall>t t'. loop_body rnd t = Inr t' \<longrightarrow>
             length (requests t') < length (requests t) \<and> draws t' = Suc (draws t))
       \<and> (\<forall>r rs picked rs'. pick_reservation r rs = Inr (picked, rs') \<longrightarrow>
             Suc (length rs') = length rs)"
proof (intro conjI)
  from create_availability_nonempty [OF assms]
  obtain av0 where av0: "create_availability requests0 = Inr av0" by blast
  from resolver_run [OF av0, of rnd] assms
  obtain s where "main rnd requests0 = Inr s"
    "loop_passes (length requests0) rnd (initial_state requests0 av0) = Inr s"
    "resolver_inv requests0 av0 s" "requests s = []" "1 \<le> draws s"
    by blast
  moreover from this have "draws s \<le> length requests0"
    unfolding resolver_inv_def by simp
  ultimately show "\<exists>av0 s. create_availability requests0 = Inr av0
            \<and> main rnd requests0 = Inr s
            \<and> loop_passes (length requests0) rnd (initial_state requests0 av0) = Inr s
            \<and> requests s = []
            \<and> 1 \<le> draws s \<and> draws s \<le> length requests0"
    using av0 by blast
  show "\<forall>t t'. loop_body rnd t = Inr t' \<longrightarrow>
             length (requests t') < length (requests t) \<and> draws t' = Suc (draws t)"
    using loop_body_shrinks loop_body_draws by blast
  show "\<forall>r rs picked rs'. pick_reservation r rs = Inr (picked, rs') \<longrightarrow>
             Suc (length rs') = length rs"
    using length_pick_reservation by blast
qed

theorem resolver_terminates_witness:
  "\<exists>s. main (\<lambda>_. 0) [Reservation 1 2 ''X'', Reservation 1 2 ''Y'', Reservation 1 2 ''Z''] = Inr s
     \<and> requests s = [] \<and> draws s = 2 \<and> 1 \<le> draws s
     \<and> draws s \<le> length [Reservation 1 2 ''X'', Reservation 1 2 ''Y'', Reservation 1 2 ''Z'']"
proof -
  have ne: "[Reservation 1 2 ''X'', Reservation 1 2 ''Y'', Reservation 1 2 ''Z''] \<noteq> []"
    by simp
  from resolver_terminates [OF ne, of "\<lambda>_. 0", THEN conjunct1]
  obtain s where run: "main (\<lambda>_. 0)
        [Reservation 1 2 ''X'', Reservation 1 2 ''Y'', Reservation 1 2 ''Z''] = Inr s"
    and fin: "requests s = []" "1 \<le> draws s"
      "draws s \<le> length [Reservation 1 2 ''X'', Reservation 1 2 ''Y'', Reservation 1 2 ''Z'']"
    by blast
  from run pruning_run(3) have "draws s = 2" by auto
  with run fin show ?thesis by blast
qed


text \<open>
  C7. Partition property: for every non-empty initial pool and every sequence of random picks
  the program ends with an empty pool, and the granted sequence together with the reservations
  logged as removed by the pruner is the initial pool as a multiset: every initial reservation,
  counted with its multiplicity, is granted or pruned, and never both.
\<close>

theorem partition_property:
  assumes "requests0 \<noteq> []"
  shows "\<exists>s. main rnd requests0 = Inr s \<and> requests s = []
           \<and> mset (chosen s) + mset (removed_log s) = mset requests0"
proof -
  from create_availability_nonempty [OF assms]
  obtain av0 where av0: "create_availability requests0 = Inr av0" by blast
  from resolver_run [OF av0, of rnd]
  obtain s where m: "main rnd requests0 = Inr s"
    and inv: "resolver_inv requests0 av0 s" and fin: "requests s = []"
    by blast
  from inv fin have "mset (chosen s) + mset (removed_log s) = mset requests0"
    unfolding resolver_inv_def by simp
  with m fin show ?thesis by blast
qed

theorem partition_property_witness:
  "\<exists>s. main (\<lambda>_. 0) [Reservation 1 2 ''X'', Reservation 1 2 ''Y'', Reservation 1 2 ''Z''] = Inr s
     \<and> chosen s = [Reservation 1 2 ''X'', Reservation 1 2 ''Y'']
     \<and> removed_log s = [Reservation 1 2 ''Z'']
     \<and> mset (chosen s) + mset (removed_log s) =
         mset [Reservation 1 2 ''X'', Reservation 1 2 ''Y'', Reservation 1 2 ''Z'']"
proof -
  have ne: "[Reservation 1 2 ''X'', Reservation 1 2 ''Y'', Reservation 1 2 ''Z''] \<noteq> []"
    by simp
  from partition_property [OF ne, of "\<lambda>_. 0"]
  obtain s where run: "main (\<lambda>_. 0)
        [Reservation 1 2 ''X'', Reservation 1 2 ''Y'', Reservation 1 2 ''Z''] = Inr s"
    and part: "mset (chosen s) + mset (removed_log s) =
         mset [Reservation 1 2 ''X'', Reservation 1 2 ''Y'', Reservation 1 2 ''Z'']"
    by blast
  from run pruning_run(3)
  have "chosen s = [Reservation 1 2 ''X'', Reservation 1 2 ''Y'']"
    "removed_log s = [Reservation 1 2 ''Z'']"
    by auto
  with run part show ?thesis by blast
qed


text \<open>
  C5. End-to-end scenario: \<open>ROOMS\<close> is 2; the requests are A = 2024-01-01..2024-01-03
  (Alice), B = 2024-01-02..2024-01-04 (Bob) and C = 2024-01-01..2024-01-02 (Carol), the
  dates being the ordinals 738886 to 738889; the pick takes the first of the pool in every
  pass, that is A, then B, then C. The program ends without raising after three passes
  with the granted sequence [A, B, C], nothing logged as removed, an empty pool, and the
  tracker 2024-01-01 at 0, 2024-01-02 at 0, 2024-01-03 at 1.
\<close>

theorem end_to_end_scenario:
  "ROOMS = 2 \<and> main (\<lambda>_. 0)
     [Reservation 738886 738888 ''Alice'', Reservation 738887 738889 ''Bob'',
      Reservation 738886 738887 ''Carol''] =
   Inr \<lparr>requests = [],
        availablility = [738886 \<mapsto> 0, 738887 \<mapsto> 0, 738888 \<mapsto> 1],
        chosen = [Reservation 738886 738888 ''Alice'', Reservation 738887 738889 ''Bob'',
                  Reservation 738886 738887 ''Carol''],
        removed_log = [],
        draws = 3\<rparr>"
proof -
  define A where "A = Reservation 738886 738888 ''Alice''"
  define B where "B = Reservation 738887 738889 ''Bob''"
  define C where "C = Reservation 738886 738887 ''Carol''"
  define rnd where "rnd = (\<lambda>_::nat. 0::nat)"
  have dr: "date_range 738886 738889 = [738886, 738887, 738888]"
    "date_range 738886 738888 = [738886, 738887]"
    "date_range 738887 738889 = [738887, 738888]"
    "date_range 738886 738887 = [738886]"
    by (simp_all add: date_range_upto upto_rec1)
  have cr: "create_availability [A, B, C] = Inr [738886 \<mapsto> 2, 738887 \<mapsto> 2, 738888 \<mapsto> 2]"
    by (simp add: create_availability_def A_def B_def C_def dr ROOMS_def)
  define s0 where "s0 = initial_state [A, B, C] [738886 \<mapsto> 2, 738887 \<mapsto> 2, 738888 \<mapsto> 2]"
  define s1 where "s1 = \<lparr>requests = [B, C],
      availablility = [738886 \<mapsto> 1, 738887 \<mapsto> 1, 738888 \<mapsto> 2],
      chosen = [A], removed_log = [], draws = 1\<rparr>"
  define s2 where "s2 = \<lparr>requests = [C],
      availablility = [738886 \<mapsto> 1, 738887 \<mapsto> 0, 738888 \<mapsto> 1],
      chosen = [A, B], removed_log = [], draws = 2\<rparr>"
  define s3 where "s3 = \<lparr>requests = [],
      availablility = [738886 \<mapsto> 0, 738887 \<mapsto> 0, 738888 \<mapsto> 1],
      chosen = [A, B, C], removed_log = [], draws = 3\<rparr>"
  have b1: "loop_body rnd s0 = Inr s1"
    by (simp add: run_simps s0_def s1_def initial_state_def rnd_def A_def B_def C_def dr)
  have b2: "loop_body rnd s1 = Inr s2"
    by (simp add: run_simps s1_def s2_def rnd_def A_def B_def C_def dr)
  have b3: "loop_body rnd s2 = Inr s3"
    by (simp add: run_simps s2_def s3_def rnd_def A_def B_def C_def dr)
  have l3: "main_loop rnd s3 = Inr s3"
    by (subst main_loop.simps) (simp add: s3_def)
  have l2: "main_loop rnd s2 = Inr s3"
    by (subst main_loop.simps) (simp add: b3 l3, simp add: s2_def)
  have l1: "main_loop rnd s1 = Inr s3"
    by (subst main_loop.simps) (simp add: b2 l2, simp add: s1_def)
  have l0: "main_loop rnd s0 = Inr s3"
    by (subst main_loop.simps) (simp add: b1 l1, simp add: s0_def initial_state_def)
  from cr l0 have "main rnd [A, B, C] = Inr s3"
    by (simp add: main_def s0_def)
  then have "main (\<lambda>_. 0)
     [Reservation 738886 738888 ''Alice'', Reservation 738887 738889 ''Bob'',
      Reservation 738886 738887 ''Carol''] =
   Inr \<lparr>requests = [],
        availablility = [738886 \<mapsto> 0, 738887 \<mapsto> 0, 738888 \<mapsto> 1],
        chosen = [Reservation 738886 738888 ''Alice'', Reservation 738887 738889 ''Bob'',
                  Reservation 738886 738887 ''Carol''],
        removed_log = [],
        draws = 3\<rparr>"
    unfolding s3_def A_def B_def C_def rnd_def .
  then show ?thesis by (simp add: ROOMS_def)
qed

end
